theory Spec2Isabelle
  imports Main
begin

section \<open>The consensus agent of \<open>subnet/substrate/consensus.py\<close>\<close>

text \<open>
  A shallow embedding of the class \<open>Consensus\<close>: the agent's fields are a record, every
  method is a function that takes the record and returns it updated, a raised exception is
  the left summand of the result, and the chain client is a record of the answers it gives
  during one pass of the loop between two calls of \<open>time.sleep\<close>.  Logging is left out:
  it changes neither the fields nor a result.
\<close>

subsection \<open>Exceptions\<close>

text \<open>
  The exceptions are instances of Python's class \<open>Exception\<close>, which is what the
  handlers \<open>except Exception\<close> of the source catch: the errors of the interpreter that the
  model needs by name, and \<open>ChainError\<close> for whatever the chain client or the scoring
  protocol raises.
\<close>

datatype py_exception =
    TypeError
  | AttributeError
  | ZeroDivisionError
  | OverflowError
  | ChainError string

type_synonym 'a result = "py_exception + 'a"

definition bind_result :: "'a result \<Rightarrow> ('a \<Rightarrow> 'b result) \<Rightarrow> 'b result" where
  "bind_result r f = (case r of Inl e \<Rightarrow> Inl e | Inr v \<Rightarrow> f v)"

definition try_except :: "'a result \<Rightarrow> (py_exception \<Rightarrow> 'a result) \<Rightarrow> 'a result" where
  "try_except body handler = (case body of Inl e \<Rightarrow> handler e | Inr v \<Rightarrow> Inr v)"

subsection \<open>Data\<close>

datatype pyval = PyInt int | PyStr string

text \<open>
  The fields of a dataclass instance or the entries of a dictionary, as name and value
  pairs; \<open>items\<close> is the set that \<open>frozenset(d.items())\<close> builds.
\<close>

type_synonym fields = "(string \<times> pyval) list"

type_synonym score_set = "(string \<times> pyval) set set"

type_synonym account = string

datatype pyobj = Dataclass fields | Str string

definition asdict :: "pyobj \<Rightarrow> fields result" where
  "asdict d = (case d of Dataclass fs \<Rightarrow> Inr fs | Str s \<Rightarrow> Inl TypeError)"

definition items :: "fields \<Rightarrow> (string \<times> pyval) set" where
  "items d = set d"

record receipt =
  is_success :: bool
  triggered_events :: "string list"

text \<open>
  What \<open>get_rewards_submission\<close> returns when the validator has published: the source
  subscripts it with \<open>"data"\<close> and \<open>"attests"\<close>, and reads component 0 of every entry
  of \<open>attests\<close> as an account.
\<close>

record rewards_submission =
  data :: "fields list"
  attests :: "(account \<times> nat) list"

text \<open>
  \<open>RewardsData.list_from_scale_info\<close> decodes the score records of a submission into
  dataclass instances.
\<close>

definition list_from_scale_info :: "fields list \<Rightarrow> pyobj list" where
  "list_from_scale_info ds = map Dataclass ds"

text \<open>
  Iterating the submission itself, as \<open>for d in previous_epoch_validator_data\<close> does,
  walks a mapping and so yields its keys.
\<close>

definition iter_submission :: "rewards_submission \<Rightarrow> pyobj list" where
  "iter_submission sub = [Str ''data'', Str ''attests'']"

text \<open>The field \<open>subnet_activated\<close> holds a block number or \<open>True\<close>.\<close>

datatype py_activated = ActivatedAt int | ActivatedTrue

record consensus =
  subnet_id :: "nat option"
  path :: string
  subnet_accepting_consensus :: bool
  subnet_node_eligible :: bool
  subnet_activated :: py_activated
  last_validated_or_attested_epoch :: int
  account_id :: account
  previous_epoch_data :: "score_set option"
  epoch_length :: nat
  stop :: bool

text \<open>The state that \<open>__init__\<close> builds.\<close>

definition init :: "string \<Rightarrow> account \<Rightarrow> nat \<Rightarrow> consensus" where
  "init p acc el =
     \<lparr> subnet_id = None, path = p, subnet_accepting_consensus = False,
       subnet_node_eligible = False, subnet_activated = ActivatedAt 9223372036854775807,
       last_validated_or_attested_epoch = 0, account_id = acc,
       previous_epoch_data = None, epoch_length = el, stop = False \<rparr>"

subsection \<open>The chain client\<close>

text \<open>
  The answers of the chain client and of the scoring protocol during one pass: a query
  returns a value or raises, an extrinsic returns a receipt, \<open>None\<close> or raises.
\<close>

record subnet_data =
  initialized :: int
  registration_blocks :: int
  activated :: int

record chain =
  get_block_number :: "nat result"
  get_subnet_id_by_path :: "string \<Rightarrow> nat option result"
  get_subnet_data :: "nat \<Rightarrow> subnet_data option result"
  get_submittable_nodes :: "nat option \<Rightarrow> account list result"
  get_rewards_validator :: "nat option \<Rightarrow> int \<Rightarrow> account option result"
  get_rewards_submission :: "nat option \<Rightarrow> int \<Rightarrow> rewards_submission option result"
  get_consensus_data :: "nat option \<Rightarrow> fields list result"
  validate_extrinsic :: "nat option \<Rightarrow> fields list \<Rightarrow> receipt option result"
  attest_extrinsic :: "nat option \<Rightarrow> receipt option result"
  activate_subnet_extrinsic :: "nat \<Rightarrow> receipt option result"

datatype attest_reason = WAITING | ATTESTED | ATTEST_FAILED | SHOULD_NOT_ATTEST

text \<open>
  What the agent does, in order.  \<open>Validate\<close> and \<open>Attest\<close> are the extrinsics, with
  the epoch of the pass that submits them and with what \<open>_do_validate\<close> or
  \<open>_do_attest\<close> returned; \<open>Attempt\<close> is one return of the method
  \<open>attest\<close>; \<open>Activate\<close> is the extrinsic \<open>activate_subnet\<close>, with what the
  invocation that submits it had fetched: the block number, the submittable nodes and
  the subnet data.
\<close>

datatype event =
    Validate int "nat option" "fields list" bool
  | Attest int "nat option" bool
  | Attempt int bool attest_reason
  | Activate nat int "account list" subnet_data

subsection \<open>Submitting extrinsics\<close>

text \<open>\<open>receipt.is_success\<close>: reading the attribute of \<open>None\<close> raises.\<close>

definition receipt_is_success :: "receipt option \<Rightarrow> bool result" where
  "receipt_is_success r = (case r of None \<Rightarrow> Inl AttributeError | Some rc \<Rightarrow> Inr (is_success rc))"

definition do_validate :: "chain \<Rightarrow> consensus \<Rightarrow> fields list \<Rightarrow> bool result" where
  "do_validate c s d =
     try_except
       (bind_result (validate_extrinsic c (subnet_id s) d) receipt_is_success)
       (\<lambda>e. Inr False)"

definition do_attest :: "chain \<Rightarrow> consensus \<Rightarrow> bool result" where
  "do_attest c s =
     try_except
       (bind_result (attest_extrinsic c (subnet_id s)) receipt_is_success)
       (\<lambda>e. Inr False)"

definition get_validator_consensus_submission ::
    "chain \<Rightarrow> consensus \<Rightarrow> int \<Rightarrow> rewards_submission option result" where
  "get_validator_consensus_submission c s epoch = get_rewards_submission c (subnet_id s) epoch"

subsection \<open>\<open>should_attest\<close>\<close>

text \<open>
  \<open>set(frozenset(asdict(d).items()) for d in xs)\<close>: the first element that is no
  dataclass instance raises.
\<close>

fun asdict_sets :: "pyobj list \<Rightarrow> (string \<times> pyval) set list result" where
  "asdict_sets [] = Inr []"
| "asdict_sets (d # ds) =
     (case asdict d of
        Inl e \<Rightarrow> Inl e
      | Inr fs \<Rightarrow> (case asdict_sets ds of Inl e \<Rightarrow> Inl e | Inr r \<Rightarrow> Inr (items fs # r)))"

definition symmetric_difference :: "'a set \<Rightarrow> 'a set \<Rightarrow> 'a set" where
  "symmetric_difference a b = (a - b) \<union> (b - a)"

definition should_attest ::
    "chain \<Rightarrow> consensus \<Rightarrow> pyobj list \<Rightarrow> fields list \<Rightarrow> int \<Rightarrow> (bool \<times> consensus) result" where
  "should_attest c s validator_data my_data epoch =
     (if length validator_data = 0 \<and> length my_data = 0 then Inr (True, s)
      else
        case asdict_sets validator_data of
          Inl e \<Rightarrow> Inl e
        | Inr l1 \<Rightarrow>
            let set1 = set l1;
                set2 = set (map items my_data);
                success = (set1 = set2)
            in
              if \<not> success \<and> previous_epoch_data s \<noteq> None then
                Inr (symmetric_difference set1 set2 \<subseteq> the (previous_epoch_data s),
                     s\<lparr>previous_epoch_data := Some set2\<rparr>)
              else if \<not> success \<and> previous_epoch_data s = None then
                (case get_validator_consensus_submission c s (epoch - 1) of
                   Inl e \<Rightarrow> Inl e
                 | Inr None \<Rightarrow> Inr (success, s\<lparr>previous_epoch_data := Some set2\<rparr>)
                 | Inr (Some previous_epoch_validator_data) \<Rightarrow>
                     (case asdict_sets (iter_submission previous_epoch_validator_data) of
                        Inl e \<Rightarrow> Inl e
                      | Inr lp \<Rightarrow>
                          Inr (symmetric_difference set1 set2 \<subseteq> set lp,
                               s\<lparr>previous_epoch_data := Some set2\<rparr>)))
              else Inr (success, s\<lparr>previous_epoch_data := Some set2\<rparr>))"

subsection \<open>The epoch of a block\<close>

text \<open>
  The source computes \<open>int(block_number / self.epoch_length)\<close>.  On two integers Python's
  \<open>/\<close> is true division: it raises on a zero divisor and otherwise returns the double
  nearest to the exact quotient, ties going to the even significand, or raises when that
  is beyond the largest double; \<open>int\<close> then drops the fraction.  A double is a multiple of
  \<open>2 ^ -1074\<close>, so the model keeps a non-negative double as the natural number \<open>v\<close> that
  stands for \<open>v * 2 ^ -1074\<close>.
\<close>

fun bit_length :: "nat \<Rightarrow> nat" where
  "bit_length n = (if n = 0 then 0 else Suc (bit_length (n div 2)))"

declare bit_length.simps [simp del]

text \<open>The integer nearest to \<open>n / d\<close>, a tie going to the even one.\<close>

definition round_half_even :: "nat \<Rightarrow> nat \<Rightarrow> nat" where
  "round_half_even n d =
     (let q = n div d; r = n mod d
      in if 2 * r < d then q else if d < 2 * r then q + 1 else if even q then q else q + 1)"

text \<open>
  The exponent \<open>t\<close> of the unit in the last place of \<open>n / b\<close>: the least one with
  \<open>n / b < 2 ^ 53 * 2 ^ t\<close>, so that the significand has at most 53 bits.
\<close>

definition float_exponent :: "nat \<Rightarrow> nat \<Rightarrow> nat" where
  "float_exponent n b =
     (let t0 = bit_length n - bit_length b - 53
      in if 2 ^ 53 * (b * 2 ^ t0) \<le> n then t0 + 1 else t0)"

definition nearest_float :: "nat \<Rightarrow> nat \<Rightarrow> nat" where
  "nearest_float a b =
     (let n = a * 2 ^ 1074; t = float_exponent n b
      in round_half_even n (b * 2 ^ t) * 2 ^ t)"

definition true_div :: "nat \<Rightarrow> nat \<Rightarrow> nat result" where
  "true_div a b =
     (if b = 0 then Inl ZeroDivisionError
      else if 2 ^ 2098 \<le> nearest_float a b then Inl OverflowError
      else Inr (nearest_float a b))"

definition int_of_float :: "nat \<Rightarrow> int" where
  "int_of_float v = int (v div 2 ^ 1074)"

definition epoch_of :: "nat \<Rightarrow> nat \<Rightarrow> int result" where
  "epoch_of block_number el = bind_result (true_div block_number el) (\<lambda>v. Inr (int_of_float v))"

subsection \<open>\<open>validate\<close> and \<open>attest\<close>\<close>

definition MAX_ATTEST_CHECKS :: nat where
  "MAX_ATTEST_CHECKS = 3"

fun has_attested :: "consensus \<Rightarrow> (account \<times> nat) list \<Rightarrow> bool" where
  "has_attested s [] = False"
| "has_attested s (d # ds) = (if fst d = account_id s then True else has_attested s ds)"

text \<open>
  The methods return their value or the exception, the agent's fields as they leave them,
  and the events of the call.
\<close>

definition validate :: "chain \<Rightarrow> consensus \<Rightarrow> int \<Rightarrow> bool result \<times> consensus \<times> event list" where
  "validate c s epoch =
     (case get_consensus_data c (subnet_id s) of
        Inl e \<Rightarrow> (Inl e, s, [])
      | Inr peers \<Rightarrow>
          (case do_validate c s peers of
             Inl e \<Rightarrow> (Inl e, s, [Validate epoch (subnet_id s) peers False])
           | Inr success \<Rightarrow> (Inr success, s, [Validate epoch (subnet_id s) peers success])))"

definition attest ::
    "chain \<Rightarrow> consensus \<Rightarrow> int \<Rightarrow> (bool \<times> attest_reason) result \<times> consensus \<times> event list" where
  "attest c s epoch =
     (case get_validator_consensus_submission c s epoch of
        Inl e \<Rightarrow> (Inl e, s, [])
      | Inr None \<Rightarrow> (Inr (False, WAITING), s, [])
      | Inr (Some validator_consensus_submission) \<Rightarrow>
          if has_attested s (attests validator_consensus_submission)
          then (Inr (False, ATTESTED), s, [])
          else
            let validator_consensus_data =
                  list_from_scale_info (data validator_consensus_submission)
            in case get_consensus_data c (subnet_id s) of
                 Inl e \<Rightarrow> (Inl e, s, [])
               | Inr peers \<Rightarrow>
                   (case should_attest c s validator_consensus_data peers epoch of
                      Inl e \<Rightarrow> (Inl e, s, [])
                    | Inr (sa, s') \<Rightarrow>
                        if sa then
                          (case do_attest c s' of
                             Inl e \<Rightarrow> (Inl e, s', [Attest epoch (subnet_id s') False])
                           | Inr attest_is_success \<Rightarrow>
                               if attest_is_success
                               then (Inr (True, ATTESTED), s',
                                     [Attest epoch (subnet_id s') True])
                               else (Inr (False, ATTEST_FAILED), s',
                                     [Attest epoch (subnet_id s') False]))
                        else (Inr (False, SHOULD_NOT_ATTEST), s', [])))"

subsection \<open>The loop of \<open>run\<close>\<close>

text \<open>
  Every pass of a loop reads the chain afresh, so the loops run over the list of the
  chain's answers, one element for each pass; the list is a finite piece of what the
  chain will answer, and a loop that finds it empty is still asleep when the piece ends.
  An exception leaves the pass for the handler of \<open>run\<close>, which goes on with the next
  pass of the outer loop.  The lengths of the sleeps have no part in the model; nor has
  \<open>get_next_epoch_start_block\<close>, whose value only sets them.
\<close>

text \<open>The inner loop, from the values of \<open>initial_epoch\<close> and \<open>attest_checks\<close>.\<close>

fun attest_loop ::
    "consensus \<Rightarrow> int \<Rightarrow> nat \<Rightarrow> chain list \<Rightarrow> consensus \<times> event list \<times> chain list" where
  "attest_loop s initial_epoch attest_checks [] = (s, [], [])"
| "attest_loop s initial_epoch attest_checks (c # cs) =
     (case get_block_number c of
        Inl e \<Rightarrow> (s, [], cs)
      | Inr block_number \<Rightarrow>
          (case epoch_of block_number (epoch_length s) of
             Inl e \<Rightarrow> (s, [], cs)
           | Inr epoch \<Rightarrow>
               if epoch > initial_epoch then (s, [], cs)
               else if attest_checks > MAX_ATTEST_CHECKS then (s, [], cs)
               else
                 (case attest c s epoch of
                    (Inl e, s', ev) \<Rightarrow> (s', ev, cs)
                  | (Inr (attest_result, reason), s', ev) \<Rightarrow>
                      if attest_result = False then
                        if reason = ATTESTED
                        then (s'\<lparr>last_validated_or_attested_epoch := epoch\<rparr>,
                              ev @ [Attempt epoch attest_result reason], cs)
                        else
                          (case attest_loop s' initial_epoch (attest_checks + 1) cs of
                             (s'', ev', cs') \<Rightarrow>
                               (s'', ev @ [Attempt epoch attest_result reason] @ ev', cs'))
                      else (s'\<lparr>last_validated_or_attested_epoch := epoch\<rparr>,
                            ev @ [Attempt epoch attest_result reason], cs))))"

subsection \<open>\<open>_activate_subnet\<close>\<close>

text \<open>
  \<open>_activate_subnet\<close> calls itself after a sleep, drops what the call returns and goes
  on with its own local variables.  An invocation starts on the chain's answers \<open>c\<close>;
  every sleep moves to the next element of \<open>cs\<close>, and the answers stay those of the last
  element taken.  The outcome \<open>Asleep\<close> says that the list ended during a sleep.  The
  constant \<open>BLOCK_SECS\<close> of \<open>subnet.substrate.config\<close> is a parameter.
\<close>

datatype outcome = Returned bool | Raised py_exception | Asleep

type_synonym act_state = "consensus \<times> event list \<times> chain \<times> chain list"

text \<open>The events and the answers still to come, in what a call returns.\<close>

definition events_of :: "outcome \<times> act_state \<Rightarrow> event list" where
  "events_of r = fst (snd (snd r))"

definition remaining :: "outcome \<times> act_state \<Rightarrow> chain list" where
  "remaining r = snd (snd (snd (snd r)))"

text \<open>The loop that counts \<open>n\<close> up to the agent's own entry.\<close>

fun find_node :: "account \<Rightarrow> account list \<Rightarrow> int \<Rightarrow> bool \<times> int" where
  "find_node acc [] n = (False, n)"
| "find_node acc (node # nodes) n =
     (if node = acc then (True, n + 1) else find_node acc nodes (n + 1))"

text \<open>\<open>time.sleep(...); self._activate_subnet()\<close>, where \<open>again\<close> is the method itself.\<close>

definition sleep_then ::
    "(consensus \<Rightarrow> chain \<Rightarrow> chain list \<Rightarrow> outcome \<times> act_state) \<Rightarrow> act_state
       \<Rightarrow> outcome \<times> act_state" where
  "sleep_then again st =
     (case st of (s, ev, c, cs) \<Rightarrow>
        (case cs of
           [] \<Rightarrow> (Asleep, st)
         | c' # cs' \<Rightarrow>
             (case again s c' cs' of (out, s', ev', c'', cs'') \<Rightarrow> (out, s', ev @ ev', c'', cs''))))"

text \<open>A statement that returned lets the next one run; a raise or the end of the list does not.\<close>

definition and_then ::
    "outcome \<times> act_state \<Rightarrow> (act_state \<Rightarrow> outcome \<times> act_state) \<Rightarrow> outcome \<times> act_state" where
  "and_then r k = (case r of (Returned b, st) \<Rightarrow> k st | (out, st) \<Rightarrow> (out, st))"

definition activated_fields :: "consensus \<Rightarrow> nat \<Rightarrow> py_activated \<Rightarrow> consensus" where
  "activated_fields s sid a =
     s\<lparr> subnet_accepting_consensus := True, subnet_id := Some sid, subnet_activated := a \<rparr>"

text \<open>The body of \<open>if block_number >= min_node_activation_block and ...\<close>.\<close>

definition activate_window ::
    "nat \<Rightarrow> int \<Rightarrow> account list \<Rightarrow> subnet_data \<Rightarrow> act_state \<Rightarrow> outcome \<times> act_state" where
  "activate_window sid block_number nodes sd st =
     (case st of (s, ev, c, cs) \<Rightarrow>
        (case get_subnet_data c sid of
           Inl e \<Rightarrow> (Raised e, st)
         | Inr None \<Rightarrow> (Raised TypeError, st)
         | Inr (Some subnet_data) \<Rightarrow>
             if activated subnet_data > 0
             then (Returned True, activated_fields s sid ActivatedTrue, ev, c, cs)
             else
               let ev' = ev @ [Activate sid block_number nodes sd]
               in case activate_subnet_extrinsic c sid of
                    Inl e \<Rightarrow> (Raised e, s, ev', c, cs)
                  | Inr None \<Rightarrow> (Returned False, s, ev', c, cs)
                  | Inr (Some receipt) \<Rightarrow>
                      if is_success receipt \<noteq> True then (Returned False, s, ev', c, cs)
                      else if ''SubnetActivated'' \<in> set (triggered_events receipt)
                      then (Returned True, activated_fields s sid ActivatedTrue, ev', c, cs)
                      else (Returned False, s, ev', c, cs)))"

text \<open>
  The lines after the lookups: the agent's place among the submittable nodes, its window
  of blocks, and the three retries.
\<close>

definition activate_in_turn ::
    "(consensus \<Rightarrow> chain \<Rightarrow> chain list \<Rightarrow> outcome \<times> act_state) \<Rightarrow> int
       \<Rightarrow> nat \<Rightarrow> subnet_data \<Rightarrow> account list \<Rightarrow> act_state \<Rightarrow> outcome \<times> act_state" where
  "activate_in_turn again BLOCK_SECS sid subnet_data submittable_nodes st =
     (let activation_block = initialized subnet_data + registration_blocks subnet_data
      in case find_node (account_id (fst st)) submittable_nodes 0 of
           (submittable, n) \<Rightarrow>
             and_then
               (if \<not> submittable then sleep_then again st else (Returned False, st))
               (\<lambda>st1.
                  let min_node_activation_block = activation_block + BLOCK_SECS * 10 * (n - 1);
                      max_node_activation_block = activation_block + BLOCK_SECS * 10 * n
                  in case get_block_number (fst (snd (snd st1))) of
                       Inl e \<Rightarrow> (Raised e, st1)
                     | Inr bn \<Rightarrow>
                         let block_number = int bn
                         in and_then
                              (if block_number < min_node_activation_block
                               then sleep_then again st1 else (Returned False, st1))
                              (\<lambda>st2.
                                 and_then
                                   (if block_number \<ge> max_node_activation_block
                                    then sleep_then again st2 else (Returned False, st2))
                                   (\<lambda>st3.
                                      if block_number \<ge> min_node_activation_block
                                         \<and> block_number < max_node_activation_block
                                      then activate_window sid block_number
                                             submittable_nodes subnet_data st3
                                      else (Returned False, st3)))))"

definition activate_subnet_body ::
    "(consensus \<Rightarrow> chain \<Rightarrow> chain list \<Rightarrow> outcome \<times> act_state) \<Rightarrow> int
       \<Rightarrow> consensus \<Rightarrow> chain \<Rightarrow> chain list \<Rightarrow> outcome \<times> act_state" where
  "activate_subnet_body again BLOCK_SECS s c cs =
     (case get_subnet_id_by_path c (path s) of
        Inl e \<Rightarrow> (Raised e, s, [], c, cs)
      | Inr None \<Rightarrow> (Returned False, s\<lparr>stop := True\<rparr>, [], c, cs)
      | Inr (Some sid) \<Rightarrow>
          (case get_subnet_data c sid of
             Inl e \<Rightarrow> (Raised e, s, [], c, cs)
           | Inr None \<Rightarrow> (Returned False, s\<lparr>stop := True\<rparr>, [], c, cs)
           | Inr (Some subnet_data) \<Rightarrow>
               if activated subnet_data > 0
               then (Returned True,
                     activated_fields s sid (ActivatedAt (activated subnet_data)), [], c, cs)
               else
                 (case get_submittable_nodes c (Some sid) of
                    Inl e \<Rightarrow> (Raised e, s, [], c, cs)
                  | Inr submittable_nodes \<Rightarrow>
                      activate_in_turn again BLOCK_SECS sid subnet_data submittable_nodes
                        (s, [], c, cs))))"

text \<open>
  The recursion, with its depth as fuel; every call comes after a sleep that takes an
  element of the list, so a depth beyond the length of the list is never used.
\<close>

primrec activate_subnet_fuel ::
    "nat \<Rightarrow> int \<Rightarrow> consensus \<Rightarrow> chain \<Rightarrow> chain list \<Rightarrow> outcome \<times> act_state" where
  "activate_subnet_fuel 0 BLOCK_SECS s c cs = (Asleep, s, [], c, cs)"
| "activate_subnet_fuel (Suc k) BLOCK_SECS s c cs =
     activate_subnet_body (activate_subnet_fuel k BLOCK_SECS) BLOCK_SECS s c cs"

definition activate_subnet ::
    "int \<Rightarrow> consensus \<Rightarrow> chain \<Rightarrow> chain list \<Rightarrow> outcome \<times> act_state" where
  "activate_subnet BLOCK_SECS s c cs = activate_subnet_fuel (Suc (length cs)) BLOCK_SECS s c cs"

text \<open>The 1-based index at which a list first shows an element.\<close>

fun index_of :: "'a \<Rightarrow> 'a list \<Rightarrow> nat option" where
  "index_of a [] = None"
| "index_of a (x # xs) = (if x = a then Some 1 else map_option Suc (index_of a xs))"

text \<open>
  The window check on an event: an \<open>activate_subnet\<close> extrinsic of the account \<open>acc\<close>,
  listed at index \<open>n\<close>, was submitted at a fetched block number of at least
  \<open>initialized + registration_blocks + 10 * BLOCK_SECS * (n - 1)\<close>.
\<close>

definition staggered :: "int \<Rightarrow> account \<Rightarrow> event \<Rightarrow> bool" where
  "staggered BLOCK_SECS acc ev =
     (case ev of
        Activate sid block_number nodes sd \<Rightarrow>
          (case index_of acc nodes of
             None \<Rightarrow> True
           | Some n \<Rightarrow>
               initialized sd + registration_blocks sd + 10 * BLOCK_SECS * (int n - 1)
                 \<le> block_number)
      | _ \<Rightarrow> True)"

text \<open>The state of an invocation: the events so far pass the check, the account is \<open>acc\<close>.\<close>

definition staggered_state :: "int \<Rightarrow> account \<Rightarrow> act_state \<Rightarrow> bool" where
  "staggered_state BLOCK_SECS acc st =
     (list_all (staggered BLOCK_SECS acc) (fst (snd st)) \<and> account_id (fst st) = acc)"

subsection \<open>One pass of the outer loop\<close>

definition get_validator :: "chain \<Rightarrow> consensus \<Rightarrow> int \<Rightarrow> account option result" where
  "get_validator c s epoch = get_rewards_validator c (subnet_id s) epoch"

text \<open>The check of \<open>subnet_node_eligible\<close>, which sets the field once the node is listed.\<close>

definition check_eligible :: "chain \<Rightarrow> consensus \<Rightarrow> consensus result" where
  "check_eligible c s =
     (if subnet_node_eligible s = False then
        (case get_submittable_nodes c (subnet_id s) of
           Inl e \<Rightarrow> Inl e
         | Inr submittable_nodes \<Rightarrow>
             Inr (if account_id s \<in> set submittable_nodes
                  then s\<lparr>subnet_node_eligible := True\<rparr> else s))
      else Inr s)"

text \<open>
  The pass returns the agent's fields, the events and the answers of the chain that are
  left for the passes to come.
\<close>

definition run_iteration ::
    "int \<Rightarrow> consensus \<Rightarrow> chain \<Rightarrow> chain list \<Rightarrow> consensus \<times> event list \<times> chain list" where
  "run_iteration BLOCK_SECS s c cs =
     (case get_block_number c of
        Inl e \<Rightarrow> (s, [], cs)
      | Inr block_number \<Rightarrow>
          (case epoch_of block_number (epoch_length s) of
             Inl e \<Rightarrow> (s, [], cs)
           | Inr epoch \<Rightarrow>
               if epoch \<le> last_validated_or_attested_epoch s \<and> subnet_accepting_consensus s
               then (s, [], cs)
               else if subnet_accepting_consensus s = False then
                 (case activate_subnet BLOCK_SECS s c cs of
                    (Asleep, s', ev, c', cs') \<Rightarrow> (s', ev, [])
                  | (out, s', ev, c', cs') \<Rightarrow> (s', ev, cs'))
               else
                 (case check_eligible c s of
                    Inl e \<Rightarrow> (s, [], cs)
                  | Inr s1 \<Rightarrow>
                      if subnet_node_eligible s1 = False then (s1, [], cs)
                      else
                        (case get_validator c s1 epoch of
                           Inl e \<Rightarrow> (s1, [], cs)
                         | Inr None \<Rightarrow> (s1, [], cs)
                         | Inr (Some validator) \<Rightarrow>
                             if validator = account_id s1 then
                               (case get_validator_consensus_submission c s1 epoch of
                                  Inl e \<Rightarrow> (s1, [], cs)
                                | Inr None \<Rightarrow>
                                    (case validate c s1 epoch of
                                       (Inl e, s2, ev) \<Rightarrow> (s2, ev, cs)
                                     | (Inr success, s2, ev) \<Rightarrow>
                                         if success
                                         then (s2\<lparr>last_validated_or_attested_epoch := epoch\<rparr>,
                                               ev, cs)
                                         else (s2, ev, cs))
                                | Inr (Some validated) \<Rightarrow>
                                    (s1\<lparr>last_validated_or_attested_epoch := epoch\<rparr>, [], cs))
                             else attest_loop s1 epoch 0 cs))))"

subsection \<open>The outer loop\<close>

text \<open>
  No pass returns more answers of the chain than it was given, so the outer loop ends
  when the list does.
\<close>

lemma attest_loop_length:
  "attest_loop s ie ac cs = (s', ev, cs') \<Longrightarrow> length cs' \<le> length cs"
proof (induction cs arbitrary: s ie ac s' ev)
  case Nil
  then show ?case by simp
next
  case (Cons c cs)
  from Cons.prems show ?case
    by (auto split: sum.splits prod.splits if_splits dest!: Cons.IH)
qed

lemma remaining_simps [simp]:
  "remaining (out, st) = snd (snd (snd st))"
  by (simp add: remaining_def)

lemma sleep_then_remaining:
  assumes "\<And>s c cs. length (remaining (again s c cs)) \<le> length cs"
  shows "length (remaining (sleep_then again st)) \<le> length (snd (snd (snd st)))"
proof -
  obtain s ev c cs where st: "st = (s, ev, c, cs)" by (cases st) auto
  show ?thesis
  proof (cases cs)
    case Nil
    then show ?thesis by (simp add: sleep_then_def st)
  next
    case (Cons c' cs')
    obtain out s' ev' c'' cs'' where a: "again s c' cs' = (out, s', ev', c'', cs'')"
      by (cases "again s c' cs'") auto
    from assms[of s c' cs'] a have "length cs'' \<le> length cs'" by simp
    then show ?thesis by (simp add: sleep_then_def st Cons a)
  qed
qed

lemma and_then_remaining:
  assumes "length (remaining r) \<le> n"
    and "\<And>st. length (snd (snd (snd st))) \<le> n \<Longrightarrow> length (remaining (k st)) \<le> n"
  shows "length (remaining (and_then r k)) \<le> n"
proof -
  obtain out st where r: "r = (out, st)" by (cases r) auto
  show ?thesis using assms by (cases out) (simp_all add: and_then_def r)
qed

lemma activate_window_remaining:
  "remaining (activate_window sid bn nodes sd st) = snd (snd (snd st))"
  by (cases st) (auto simp: activate_window_def Let_def split: sum.splits option.splits)

lemma retry_remaining:
  assumes "\<And>s c cs. length (remaining (again s c cs)) \<le> length cs"
    and "length (snd (snd (snd st))) \<le> n"
  shows "length (remaining (if b then sleep_then again st else (Returned False, st))) \<le> n"
proof -
  have "length (remaining (sleep_then again st)) \<le> length (snd (snd (snd st)))"
    by (rule sleep_then_remaining) (rule assms(1))
  with assms(2) show ?thesis by simp
qed

lemma activate_in_turn_remaining:
  assumes again: "\<And>s c cs. length (remaining (again s c cs)) \<le> length cs"
  shows "length (remaining (activate_in_turn again bs sid sd nodes st))
           \<le> length (snd (snd (snd st)))"
proof -
  obtain submittable n where f: "find_node (account_id (fst st)) nodes 0 = (submittable, n)"
    by (cases "find_node (account_id (fst st)) nodes 0") auto
  show ?thesis
    unfolding activate_in_turn_def Let_def f prod.case
  proof (rule and_then_remaining)
    show "length (remaining (if \<not> submittable then sleep_then again st else (Returned False, st)))
        \<le> length (snd (snd (snd st)))"
      by (rule retry_remaining[OF again]) simp
  next
    fix st1 :: act_state
    assume l1: "length (snd (snd (snd st1))) \<le> length (snd (snd (snd st)))"
    show "length (remaining
          (case get_block_number (fst (snd (snd st1))) of
             Inl e \<Rightarrow> (Raised e, st1)
           | Inr bn \<Rightarrow>
               and_then
                 (if int bn < initialized sd + registration_blocks sd + bs * 10 * (n - 1)
                  then sleep_then again st1 else (Returned False, st1))
                 (\<lambda>st2.
                    and_then
                      (if initialized sd + registration_blocks sd + bs * 10 * n \<le> int bn
                       then sleep_then again st2 else (Returned False, st2))
                      (\<lambda>st3.
                         if initialized sd + registration_blocks sd + bs * 10 * (n - 1) \<le> int bn
                            \<and> int bn < initialized sd + registration_blocks sd + bs * 10 * n
                         then activate_window sid (int bn) nodes sd st3
                         else (Returned False, st3)))))
        \<le> length (snd (snd (snd st)))"
    proof (cases "get_block_number (fst (snd (snd st1)))")
      case (Inl e)
      then show ?thesis using l1 by simp
    next
      case (Inr bn)
      show ?thesis
        unfolding Inr sum.case
      proof (rule and_then_remaining, rule retry_remaining[OF again l1], rule and_then_remaining)
        fix st2 :: act_state
        assume l2: "length (snd (snd (snd st2))) \<le> length (snd (snd (snd st)))"
        show "length (remaining (if initialized sd + registration_blocks sd + bs * 10 * n \<le> int bn
               then sleep_then again st2 else (Returned False, st2)))
            \<le> length (snd (snd (snd st)))"
          by (rule retry_remaining[OF again l2])
      next
        fix st2 st3 :: act_state
        assume l3: "length (snd (snd (snd st3))) \<le> length (snd (snd (snd st)))"
        then show "length (remaining (if initialized sd + registration_blocks sd + bs * 10 * (n - 1) \<le> int bn
                            \<and> int bn < initialized sd + registration_blocks sd + bs * 10 * n
                         then activate_window sid (int bn) nodes sd st3
                         else (Returned False, st3)))
            \<le> length (snd (snd (snd st)))"
          by (simp add: activate_window_remaining del: remaining_simps)
            (simp)
      qed
    qed
  qed
qed


lemma activate_subnet_body_remaining:
  assumes again: "\<And>s c cs. length (remaining (again s c cs)) \<le> length cs"
  shows "length (remaining (activate_subnet_body again bs s c cs)) \<le> length cs"
  unfolding activate_subnet_body_def
  using activate_in_turn_remaining[OF again, where st = "(s, [], c, cs)"]
  by (simp split: sum.split option.split)

lemma activate_subnet_fuel_remaining:
  "length (remaining (activate_subnet_fuel k bs s c cs)) \<le> length cs"
proof (induction k arbitrary: s c cs)
  case 0
  then show ?case by simp
next
  case (Suc k)
  show ?case
    unfolding activate_subnet_fuel.simps
    by (rule activate_subnet_body_remaining) (rule Suc.IH)
qed

lemma run_iteration_length:
  "run_iteration bs s c cs = (s', ev, cs') \<Longrightarrow> length cs' \<le> length cs"
proof -
  assume r: "run_iteration bs s c cs = (s', ev, cs')"
  have a: "length (remaining (activate_subnet bs s c cs)) \<le> length cs"
    unfolding activate_subnet_def by (rule activate_subnet_fuel_remaining)
  have b: "\<And>s1 e. attest_loop s1 e 0 cs = (s', ev, cs') \<Longrightarrow> length cs' \<le> length cs"
    by (rule attest_loop_length)
  from r show ?thesis
    unfolding run_iteration_def
    using a b
    by (auto split: sum.splits option.splits prod.splits outcome.splits if_splits)
qed

text \<open>
  \<open>while not self.stop.is_set()\<close>: the events of the passes, and the agent's fields when
  the flag is set or the list of answers ends.
\<close>

function run :: "int \<Rightarrow> consensus \<Rightarrow> chain list \<Rightarrow> consensus \<times> event list" where
  "run BLOCK_SECS s [] = (s, [])"
| "run BLOCK_SECS s (c # cs) =
     (if stop s then (s, [])
      else
        (case run_iteration BLOCK_SECS s c cs of
           (s', ev, cs') \<Rightarrow>
             (case run BLOCK_SECS s' cs' of (s'', ev') \<Rightarrow> (s'', ev @ ev'))))"
  by pat_completeness auto
termination
proof (relation "measure (\<lambda>(bs, s, cs). length cs)")
  show "wf (measure (\<lambda>(bs, s, cs). length cs))" by simp
next
  fix BLOCK_SECS s c cs x1 x2 x3 y
  assume "(x1, y) = run_iteration BLOCK_SECS s c cs" "(x2, x3) = y"
  then have "run_iteration BLOCK_SECS s c cs = (x1, x2, x3)" by simp
  from run_iteration_length[OF this]
  show "((BLOCK_SECS, x1, x3), BLOCK_SECS, s, c # cs) \<in> measure (\<lambda>(bs, s, cs). length cs)"
    by simp
qed


subsection \<open>Conditions on the chain's answers\<close>

text \<open>The pass reads a block of the epoch \<open>ie\<close>.\<close>

definition no_rollover :: "consensus \<Rightarrow> int \<Rightarrow> chain \<Rightarrow> bool" where
  "no_rollover s ie c =
     (case get_block_number c of
        Inl e \<Rightarrow> False
      | Inr bn \<Rightarrow> epoch_of bn (epoch_length s) = Inr ie)"

text \<open>The validator has not submitted for the epoch \<open>ie\<close>.\<close>

definition submission_absent :: "consensus \<Rightarrow> int \<Rightarrow> chain \<Rightarrow> bool" where
  "submission_absent s ie c = (get_rewards_submission c (subnet_id s) ie = Inr None)"

text \<open>The block numbers the chain answers, in order; an answer that raises has none.\<close>

fun heights :: "chain list \<Rightarrow> nat list" where
  "heights [] = []"
| "heights (c # cs) =
     (case get_block_number c of Inl e \<Rightarrow> heights cs | Inr bn \<Rightarrow> bn # heights cs)"

subsection \<open>Conditions on the events\<close>

text \<open>A \<open>validate\<close> extrinsic for the epoch \<open>e\<close>.\<close>

definition validates :: "int \<Rightarrow> event \<Rightarrow> bool" where
  "validates e ev = (case ev of Validate e' sid d ok \<Rightarrow> e' = e | _ \<Rightarrow> False)"

text \<open>A \<open>validate\<close> or \<open>attest\<close> extrinsic for the epoch \<open>e\<close> that succeeded.\<close>

definition successful :: "int \<Rightarrow> event \<Rightarrow> bool" where
  "successful e ev =
     (case ev of
        Validate e' sid d ok \<Rightarrow> ok \<and> e' = e
      | Attest e' sid ok \<Rightarrow> ok \<and> e' = e
      | _ \<Rightarrow> False)"

text \<open>
  Every \<open>validate\<close> and \<open>attest\<close> extrinsic is for an epoch after \<open>l\<close>, the last epoch
  completed, and after the epoch of every successful one before it.
\<close>

fun orderly :: "int \<Rightarrow> event list \<Rightarrow> bool" where
  "orderly l [] = True"
| "orderly l (Validate e sid d ok # evs) = (l < e \<and> orderly (if ok then e else l) evs)"
| "orderly l (Attest e sid ok # evs) = (l < e \<and> orderly (if ok then e else l) evs)"
| "orderly l (ev # evs) = orderly l evs"

text \<open>The last epoch completed after the events, from \<open>l\<close> before them.\<close>

fun level :: "int \<Rightarrow> event list \<Rightarrow> int" where
  "level l [] = l"
| "level l (Validate e sid d ok # evs) = level (if ok then e else l) evs"
| "level l (Attest e sid ok # evs) = level (if ok then e else l) evs"
| "level l (ev # evs) = level l evs"

text \<open>
  The re-check before a submission: a \<open>validate\<close> extrinsic for an epoch comes with an
  answer of the chain that shows no submission for the epoch, an \<open>attest\<close> extrinsic
  with an answer that shows a submission without the account \<open>acc\<close> among its attests.
\<close>

definition rechecked :: "chain list \<Rightarrow> account \<Rightarrow> event \<Rightarrow> bool" where
  "rechecked cs acc ev =
     (case ev of
        Validate e sid d ok \<Rightarrow>
          list_ex (\<lambda>c. get_rewards_submission c sid e = Inr None) cs
      | Attest e sid ok \<Rightarrow>
          list_ex
            (\<lambda>c. case get_rewards_submission c sid e of
                   Inr (Some sub) \<Rightarrow> acc \<notin> fst ` set (attests sub)
                 | _ \<Rightarrow> False) cs
      | _ \<Rightarrow> True)"

text \<open>
  What the activation keeps: the fields of the agent that only the consensus passes
  write, the answers of the chain as a final piece of those it was given, and no event
  but \<open>Activate\<close>.
\<close>

definition is_activate :: "event \<Rightarrow> bool" where
  "is_activate ev = (case ev of Activate sid bn nodes sd \<Rightarrow> True | _ \<Rightarrow> False)"

definition same_agent :: "consensus \<Rightarrow> consensus \<Rightarrow> bool" where
  "same_agent s s' =
     (last_validated_or_attested_epoch s' = last_validated_or_attested_epoch s \<and>
      epoch_length s' = epoch_length s \<and> account_id s' = account_id s)"

definition kept :: "consensus \<Rightarrow> chain list \<Rightarrow> act_state \<Rightarrow> bool" where
  "kept s0 cs0 st =
     (same_agent s0 (fst st) \<and> (\<exists>pre. cs0 = pre @ snd (snd (snd st))) \<and>
      list_all is_activate (fst (snd st)))"

section \<open>Concrete inputs\<close>

definition rec_p1 :: fields where
  "rec_p1 = [(''peer_id'', PyStr ''p1''), (''score'', PyInt 5)]"

definition ok_receipt :: receipt where
  "ok_receipt = \<lparr> is_success = True, triggered_events = [] \<rparr>"

definition failed_receipt :: receipt where
  "failed_receipt = \<lparr> is_success = False, triggered_events = [] \<rparr>"

text \<open>
  A chain at block \<open>bn\<close> on which the account \<open>val\<close> is the validator of every epoch,
  every epoch has the submission \<open>sub\<close>, the scoring protocol finds \<open>peers\<close>, and the
  extrinsics return the receipt \<open>rc\<close>.
\<close>

definition chain_at ::
    "nat \<Rightarrow> account \<Rightarrow> rewards_submission option \<Rightarrow> fields list \<Rightarrow> receipt \<Rightarrow> chain" where
  "chain_at bn val sub peers rc =
     \<lparr> get_block_number = Inr bn,
       get_subnet_id_by_path = (\<lambda>p. Inr (Some 1)),
       get_subnet_data =
         (\<lambda>i. Inr (Some \<lparr> initialized = 0, registration_blocks = 10, activated = 20 \<rparr>)),
       get_submittable_nodes = (\<lambda>i. Inr [''val'', ''me'']),
       get_rewards_validator = (\<lambda>i e. Inr (Some val)),
       get_rewards_submission = (\<lambda>i e. Inr sub),
       get_consensus_data = (\<lambda>i. Inr peers),
       validate_extrinsic = (\<lambda>i d. Inr (Some rc)),
       attest_extrinsic = (\<lambda>i. Inr (Some rc)),
       activate_subnet_extrinsic = (\<lambda>i. Inr (Some rc)) \<rparr>"

text \<open>The agent of the account \<open>me\<close> on subnet 1, activated and eligible.\<close>

definition agent :: consensus where
  "agent = (init ''path'' ''me'' 10)
     \<lparr> subnet_id := Some 1, subnet_accepting_consensus := True, subnet_node_eligible := True \<rparr>"

text \<open>A submission of the validator that the account \<open>me\<close> has attested.\<close>

definition attested_submission :: rewards_submission where
  "attested_submission = \<lparr> data = [rec_p1], attests = [(''val'', 100), (''me'', 101)] \<rparr>"

text \<open>A submission of the validator that nobody else has attested.\<close>

definition fresh_submission :: rewards_submission where
  "fresh_submission = \<lparr> data = [rec_p1], attests = [(''val'', 100)] \<rparr>"

text \<open>
  A chain at block \<open>bn\<close> whose subnet 1, initialized at block 0 with 10 registration
  blocks, is not activated yet and accepts the activation.
\<close>

definition registering_at :: "nat \<Rightarrow> chain" where
  "registering_at bn =
     (chain_at bn ''val'' None []
        \<lparr> is_success = True, triggered_events = [''SubnetActivated''] \<rparr>)
     \<lparr> get_subnet_data :=
         (\<lambda>i. Inr (Some \<lparr> initialized = 0, registration_blocks = 10, activated = 0 \<rparr>)) \<rparr>"

section \<open>Properties\<close>

subsection \<open>The submission wrappers\<close>

text \<open>
  C10: \<open>_do_validate\<close> and \<open>_do_attest\<close> never raise.  Whatever the extrinsic does, the
  wrapper returns a boolean: the receipt's \<open>is_success\<close> when the extrinsic returned a
  receipt, and \<open>False\<close> when it raised (or returned \<open>None\<close>, whose attribute access
  raises inside the \<open>try\<close>).
\<close>

theorem do_validate_do_attest_never_raise:
  "do_validate c s d =
     Inr (case validate_extrinsic c (subnet_id s) d of
            Inr (Some rc) \<Rightarrow> is_success rc | _ \<Rightarrow> False) \<and>
   do_attest c s =
     Inr (case attest_extrinsic c (subnet_id s) of
            Inr (Some rc) \<Rightarrow> is_success rc | _ \<Rightarrow> False)"
  by (simp add: do_validate_def do_attest_def try_except_def bind_result_def
        receipt_is_success_def split: sum.splits option.splits)

theorem do_validate_do_attest_never_raise_witness:
  "do_validate (chain_at 100 ''val'' None [] failed_receipt) agent [rec_p1] = Inr False \<and>
   do_attest (chain_at 100 ''val'' None [] ok_receipt) agent = Inr True"
proof -
  have v: "validate_extrinsic (chain_at 100 ''val'' None [] failed_receipt) (subnet_id agent)
             [rec_p1] = Inr (Some failed_receipt)"
    by (simp add: chain_at_def)
  have a: "attest_extrinsic (chain_at 100 ''val'' None [] ok_receipt) (subnet_id agent)
             = Inr (Some ok_receipt)"
    by (simp add: chain_at_def)
  have f: "is_success failed_receipt = False" "is_success ok_receipt = True"
    by (simp_all add: failed_receipt_def ok_receipt_def)
  from do_validate_do_attest_never_raise
         [of "chain_at 100 ''val'' None [] failed_receipt" agent "[rec_p1]"]
  have "do_validate (chain_at 100 ''val'' None [] failed_receipt) agent [rec_p1] = Inr False"
    by (simp only: v f sum.case option.case)
  moreover
  from do_validate_do_attest_never_raise
         [of "chain_at 100 ''val'' None [] ok_receipt" agent "[rec_p1]"]
  have "do_attest (chain_at 100 ''val'' None [] ok_receipt) agent = Inr True"
    by (simp only: a f sum.case option.case)
  ultimately show ?thesis by simp
qed

subsection \<open>\<open>should_attest\<close>\<close>

lemma asdict_sets_Dataclass: "asdict_sets (map Dataclass A) = Inr (map items A)"
  by (induction A) (simp_all add: asdict_def)

lemma should_attest_same_vector:
  "\<exists>s'. should_attest c s (list_from_scale_info A) A e = Inr (True, s')"
  by (simp add: should_attest_def list_from_scale_info_def asdict_sets_Dataclass Let_def)

text \<open>
  C4: \<open>should_attest\<close> is reflexive.  Whenever the validator's records and the node's
  own records come to the same set of field tuples, in particular when both are the same
  vector \<open>A\<close>, empty or not, \<open>should_attest\<close> returns \<open>True\<close>, at every epoch and
  whatever the previous epoch's data.
\<close>

theorem should_attest_reflexive:
  assumes "asdict_sets validator_data = Inr l1"
    and "set l1 = set (map items my_data)"
  shows "\<exists>s'. should_attest c s validator_data my_data e = Inr (True, s')"
  using assms by (simp add: should_attest_def Let_def)

theorem should_attest_reflexive_witness:
  "asdict_sets (list_from_scale_info [rec_p1]) = Inr [items rec_p1] \<and>
   set [items rec_p1] = set (map items [rec_p1]) \<and>
   (\<exists>s'. should_attest (chain_at 100 ''val'' None [] ok_receipt) agent
            (list_from_scale_info [rec_p1]) [rec_p1] 10 = Inr (True, s'))"
proof -
  have a: "asdict_sets (list_from_scale_info [rec_p1]) = Inr [items rec_p1]"
    by (simp add: list_from_scale_info_def asdict_def)
  have b: "set [items rec_p1] = set (map items [rec_p1])"
    by simp
  show ?thesis
    using a b should_attest_reflexive [OF a b] by blast
qed

text \<open>
  C5: every attempt that reaches the comparison updates \<open>previous_epoch_data\<close> to the
  node's own set.  The source returns on its first line when both lists are empty and
  never reaches the assignment: with a previous set \<open>{p1}\<close> and two empty lists the call
  returns \<open>True\<close> and leaves \<open>{p1}\<close> in the field, where the node's own set is empty.
\<close>

theorem should_attest_both_empty_keeps_previous:
  "should_attest (chain_at 100 ''val'' None [] ok_receipt)
     (agent\<lparr>previous_epoch_data := Some {items rec_p1}\<rparr>) [] [] 10
   = Inr (True, agent\<lparr>previous_epoch_data := Some {items rec_p1}\<rparr>) \<and>
   previous_epoch_data (agent\<lparr>previous_epoch_data := Some {items rec_p1}\<rparr>)
     \<noteq> Some (set (map items []))"
  by (simp add: should_attest_def)

text \<open>
  C3: with no previous data and differing sets, the previous epoch's submission on chain
  stands in for the previous data.  The source iterates the submission itself, not the
  records under its key \<open>"data"\<close> that \<open>attest\<close> decodes, so \<open>asdict\<close> raises: with the
  validator's set \<open>{p1}\<close>, an empty own set and \<open>{p1}\<close> in the previous submission the
  difference is within the previous records, and the call raises \<open>TypeError\<close>.
\<close>

theorem should_attest_first_epoch_raises:
  "symmetric_difference (set (map items [rec_p1])) (set (map items []))
     \<subseteq> set (map items (data \<lparr> data = [rec_p1], attests = [] \<rparr>)) \<and>
   should_attest
     (chain_at 100 ''val'' (Some \<lparr> data = [rec_p1], attests = [] \<rparr>) [] ok_receipt)
     agent (list_from_scale_info [rec_p1]) [] 10
   = Inl TypeError"
  by (simp add: should_attest_def list_from_scale_info_def asdict_def items_def agent_def
        init_def chain_at_def get_validator_consensus_submission_def iter_submission_def
        symmetric_difference_def Let_def)

subsection \<open>The epoch of a block\<close>

lemma bit_length_0: "bit_length 0 = 0"
  by (subst bit_length.simps) simp

lemma bit_length_Suc: "n > 0 \<Longrightarrow> bit_length n = Suc (bit_length (n div 2))"
  by (subst bit_length.simps) simp

lemma bit_length_pos: "n > 0 \<Longrightarrow> bit_length n > 0"
  by (simp add: bit_length_Suc)

lemma bit_length_bounds: "n > 0 \<Longrightarrow> 2 ^ (bit_length n - 1) \<le> n \<and> n < 2 ^ bit_length n"
proof (induction n rule: bit_length.induct)
  case (1 n)
  show ?case
  proof (cases "n div 2 = 0")
    case True
    with 1 have "n = 1" by presburger
    then show ?thesis by (simp add: bit_length_Suc bit_length_0)
  next
    case False
    with 1 have ih: "2 ^ (bit_length (n div 2) - 1) \<le> n div 2" "n div 2 < 2 ^ bit_length (n div 2)"
      by simp_all
    from False have pos: "bit_length (n div 2) > 0" by (simp add: bit_length_pos)
    have bl: "bit_length n = Suc (bit_length (n div 2))" using 1 by (simp add: bit_length_Suc)
    have "2 * 2 ^ (bit_length (n div 2) - 1) \<le> n" using ih(1) by linarith
    moreover have "2 * 2 ^ (bit_length (n div 2) - 1) = (2::nat) ^ bit_length (n div 2)"
      using pos by (metis power_Suc Suc_pred')
    moreover have "n < 2 * 2 ^ bit_length (n div 2)" using ih(2) by linarith
    ultimately show ?thesis by (simp add: bl)
  qed
qed

lemma bit_length_eqI:
  assumes "0 < k" "2 ^ (k - 1) \<le> n" "n < 2 ^ k"
  shows "bit_length n = k"
proof -
  have n0: "n > 0"
  proof (rule ccontr)
    assume "\<not> 0 < n"
    with assms(2) show False by simp
  qed
  from bit_length_bounds[OF n0] have b: "2 ^ (bit_length n - 1) \<le> n" "n < 2 ^ bit_length n" by auto
  have "(2::nat) ^ (k - 1) < 2 ^ bit_length n" using assms(2) b(2) by linarith
  then have "k - 1 < bit_length n" by (simp add: power_strict_increasing_iff)
  moreover have "(2::nat) ^ (bit_length n - 1) < 2 ^ k" using b(1) assms(3) by linarith
  then have "bit_length n - 1 < k" by (simp add: power_strict_increasing_iff)
  ultimately show ?thesis using assms(1) by linarith
qed

lemma exp_upper_gen:
  fixes n b p :: nat
  assumes "b > 0" "n > 0"
  shows "n < 2 ^ p * (b * 2 ^ (bit_length n - bit_length b - p + 1))"
proof -
  define ln where "ln = bit_length n"
  define lb where "lb = bit_length b"
  define t0 where "t0 = ln - lb - p"
  have nb: "n < 2 ^ ln" using bit_length_bounds[of n] assms by (simp add: ln_def)
  have bb: "2 ^ (lb - 1) \<le> b" using bit_length_bounds[of b] assms by (simp add: lb_def)
  have lbpos: "lb > 0" using assms bit_length_pos by (simp add: lb_def)
  have "ln \<le> p + ((lb - 1) + (t0 + 1))" using lbpos by (simp add: t0_def)
  then have "(2::nat) ^ ln \<le> 2 ^ (p + ((lb - 1) + (t0 + 1)))"
    by (rule power_increasing) simp
  also have "\<dots> = 2 ^ p * (2 ^ (lb - 1) * 2 ^ (t0 + 1))"
    by (simp only: power_add)
  also have "\<dots> \<le> 2 ^ p * (b * 2 ^ (t0 + 1))"
    by (intro mult_le_mono bb le_refl)
  finally have "n < 2 ^ p * (b * 2 ^ (t0 + 1))" using nb by linarith
  then show ?thesis by (simp only: t0_def ln_def lb_def)
qed

lemma exp_lower_gen:
  fixes n b p :: nat
  assumes "b > 0" "bit_length n - bit_length b - Suc p > 0"
  shows "2 ^ p * (b * 2 ^ (bit_length n - bit_length b - Suc p)) \<le> n"
proof -
  define ln where "ln = bit_length n"
  define lb where "lb = bit_length b"
  define t0 where "t0 = ln - lb - Suc p"
  have t0pos: "t0 > 0" using assms by (simp add: t0_def ln_def lb_def)
  then have lneq: "ln - 1 = p + (lb + t0)" by (simp add: t0_def)
  have "ln > 0" using t0pos by (simp add: t0_def)
  then have "n > 0" by (cases "n = 0") (simp_all add: bit_length_0 ln_def)
  then have nb: "2 ^ (ln - 1) \<le> n" using bit_length_bounds[of n] by (simp add: ln_def)
  have bb: "b \<le> 2 ^ lb" using bit_length_bounds[of b] assms by (simp add: lb_def)
  have "2 ^ p * (b * 2 ^ t0) \<le> 2 ^ p * (2 ^ lb * 2 ^ t0)"
    by (intro mult_le_mono bb le_refl)
  also have "\<dots> = (2::nat) ^ (ln - 1)" by (simp only: lneq power_add)
  finally have "2 ^ p * (b * 2 ^ t0) \<le> n" using nb by linarith
  then show ?thesis by (simp only: t0_def ln_def lb_def)
qed

lemma round_half_even_cancel:
  "k > 0 \<Longrightarrow> round_half_even (n * k) (d * k) = round_half_even n d"
  by (simp add: round_half_even_def Let_def mod_mult_mult2)

lemma bit_length_1: "bit_length 1 = 1"
  by (rule bit_length_eqI) simp_all

lemma nearest_float_2_53_1:
  "nearest_float 9007199254740993 1 = 9007199254740992 * 2 ^ 1074"
proof -
  have bl: "bit_length (9007199254740993 * 2 ^ 1074) = 1128"
    by (rule bit_length_eqI) simp_all
  have fe: "float_exponent (9007199254740993 * 2 ^ 1074) 1 = 1075"
    unfolding float_exponent_def bl bit_length_1 by (simp add: Let_def)
  have rh: "round_half_even 9007199254740993 2 = 4503599627370496"
    by (simp add: round_half_even_def Let_def)
  have "round_half_even (9007199254740993 * 2 ^ 1074) (1 * 2 ^ 1075)
      = round_half_even (9007199254740993 * 2 ^ 1074) (2 * 2 ^ 1074)"
    by (simp only: power_Suc[symmetric] mult_1) simp
  also have "\<dots> = round_half_even 9007199254740993 2"
    by (rule round_half_even_cancel) simp
  finally show ?thesis
    unfolding nearest_float_def Let_def fe rh by simp
qed

text \<open>
  C9: the epoch the loop computes is \<open>floor(block_number / epoch_length)\<close> for every
  block number.  The source divides in floating point: at block \<open>2 ^ 53 + 1\<close> with an
  epoch length of 1 the quotient rounds to the double \<open>2 ^ 53\<close>, and the epoch computed
  is \<open>9007199254740992\<close>, one less than the integer quotient.
\<close>

theorem epoch_of_rounds_at_2_53:
  "epoch_of 9007199254740993 1 = Inr 9007199254740992 \<and>
   int (9007199254740993 div 1) = 9007199254740993"
proof -
  have ov: "\<not> 2 ^ 2098 \<le> nearest_float 9007199254740993 1"
    unfolding nearest_float_2_53_1 by simp
  have dv: "nearest_float 9007199254740993 1 div 2 ^ 1074 = 9007199254740992"
    unfolding nearest_float_2_53_1 by (rule div_mult_self_is_m) simp
  have td: "true_div 9007199254740993 1 = Inr (nearest_float 9007199254740993 1)"
    using ov by (simp add: true_div_def)
  have "epoch_of 9007199254740993 1 = Inr 9007199254740992"
    unfolding epoch_of_def td bind_result_def int_of_float_def
    by (simp only: sum.case dv) simp
  then show ?thesis by simp
qed

subsection \<open>Exact below \<open>2 ^ 53\<close>, monotone everywhere\<close>

lemma float_exponent_cases:
  "float_exponent n b = bit_length n - bit_length b - 53 + 1 \<and>
     2 ^ 53 * (b * 2 ^ (bit_length n - bit_length b - 53)) \<le> n
   \<or> float_exponent n b = bit_length n - bit_length b - 53 \<and>
     \<not> 2 ^ 53 * (b * 2 ^ (bit_length n - bit_length b - 53)) \<le> n"
  by (simp add: float_exponent_def Let_def)

lemma float_exponent_upper:
  assumes "b > 0"
  shows "n < 2 ^ 53 * (b * 2 ^ float_exponent n b)"
proof (cases "n = 0")
  case True
  with assms show ?thesis by simp
next
  case False
  then have n0: "n > 0" by simp
  from float_exponent_cases[of n b] show ?thesis
  proof (elim disjE conjE)
    assume fe: "float_exponent n b = bit_length n - bit_length b - 53 + 1"
    show ?thesis unfolding fe by (rule exp_upper_gen[OF assms n0])
  next
    assume fe: "float_exponent n b = bit_length n - bit_length b - 53"
      and c: "\<not> 2 ^ 53 * (b * 2 ^ (bit_length n - bit_length b - 53)) \<le> n"
    from c show ?thesis unfolding fe by simp
  qed
qed

lemma float_exponent_lower:
  assumes "b > 0" "float_exponent n b > 0"
  shows "2 ^ 52 * (b * 2 ^ float_exponent n b) \<le> n"
proof -
  from float_exponent_cases[of n b] show ?thesis
  proof (elim disjE conjE)
    assume fe: "float_exponent n b = bit_length n - bit_length b - 53 + 1"
      and c: "2 ^ 53 * (b * 2 ^ (bit_length n - bit_length b - 53)) \<le> n"
    have "(2::nat) ^ 52 * (b * 2 ^ (bit_length n - bit_length b - 53 + 1))
        = 2 ^ 53 * (b * 2 ^ (bit_length n - bit_length b - 53))"
      by simp
    with c show ?thesis unfolding fe by simp
  next
    assume fe: "float_exponent n b = bit_length n - bit_length b - 53"
    with assms(2) have "bit_length n - bit_length b - Suc 52 > 0" by simp
    from exp_lower_gen[OF assms(1) this] show ?thesis unfolding fe by simp
  qed
qed

lemma float_exponent_mono:
  assumes "b > 0" "n \<le> n'"
  shows "float_exponent n b \<le> float_exponent n' b"
proof (rule ccontr)
  assume "\<not> ?thesis"
  then have lt: "float_exponent n' b + 1 \<le> float_exponent n b" by simp
  then have "(2::nat) ^ (float_exponent n' b + 1) \<le> 2 ^ float_exponent n b"
    by (rule power_increasing) simp
  then have "2 ^ 52 * (b * 2 ^ (float_exponent n' b + 1)) \<le> 2 ^ 52 * (b * 2 ^ float_exponent n b)"
    by (intro mult_le_mono le_refl)
  also have "\<dots> \<le> n" using float_exponent_lower[OF assms(1), of n] lt by simp
  finally have "2 ^ 52 * (b * 2 ^ (float_exponent n' b + 1)) \<le> n'" using assms(2) by simp
  moreover have "(2::nat) ^ 52 * (b * 2 ^ (float_exponent n' b + 1)) = 2 ^ 53 * (b * 2 ^ float_exponent n' b)"
    by simp
  ultimately show False using float_exponent_upper[OF assms(1), of n'] by simp
qed

lemma rhe_ge: "n div d \<le> round_half_even n d"
  by (simp add: round_half_even_def Let_def)

lemma rhe_le: "round_half_even n d \<le> n div d + 1"
  by (simp add: round_half_even_def Let_def)

lemma rhe_exact: "d > 0 \<Longrightarrow> round_half_even (k * d) d = k"
  by (simp add: round_half_even_def Let_def)

lemma rhe_mono:
  assumes "d > 0" "n \<le> n'"
  shows "round_half_even n d \<le> round_half_even n' d"
proof (cases "n div d = n' div d")
  case True
  have "n mod d \<le> n' mod d"
    using assms(2) True by (metis add_le_cancel_left mult_div_mod_eq)
  then show ?thesis
    by (auto simp: round_half_even_def Let_def True)
next
  case False
  then have "n div d < n' div d" using assms(2) by (simp add: div_le_mono le_neq_implies_less)
  then have "round_half_even n d \<le> n' div d" using rhe_le[of n d] by linarith
  then show ?thesis using rhe_ge[of n' d] by linarith
qed

lemma rhe_le_bound:
  assumes "d > 0" "n \<le> k * d"
  shows "round_half_even n d \<le> k"
  using rhe_mono[OF assms] rhe_exact[OF assms(1), of k] by simp

lemma rhe_ge_bound:
  assumes "d > 0" "k * d \<le> n"
  shows "k \<le> round_half_even n d"
  using rhe_mono[OF assms] rhe_exact[OF assms(1), of k] by simp

lemma rhe_le_half:
  assumes "d > 0"
  shows "round_half_even n d \<le> (2 * n + d) div (2 * d)"
proof -
  define qd where "qd = n div d * d"
  define r where "r = n mod d"
  have n: "n = qd + r" by (simp add: qd_def r_def)
  have q2: "n div d * (2 * d) = 2 * qd" by (simp add: qd_def)
  have q3: "(n div d + 1) * (2 * d) = 2 * qd + 2 * d" by (simp add: qd_def algebra_simps)
  show ?thesis
  proof (cases "2 * r < d")
    case True
    have "2 * qd \<le> 2 * n + d" using n by simp
    then have "n div d * (2 * d) \<le> 2 * n + d" by (simp only: q2)
    then have "n div d \<le> (2 * n + d) div (2 * d)"
      using assms by (simp add: less_eq_div_iff_mult_less_eq)
    with True show ?thesis by (simp add: round_half_even_def Let_def r_def)
  next
    case False
    then have "2 * qd + 2 * d \<le> 2 * n + d" using n by simp
    then have "(n div d + 1) * (2 * d) \<le> 2 * n + d" by (simp only: q3)
    then have "n div d + 1 \<le> (2 * n + d) div (2 * d)"
      using assms by (simp add: less_eq_div_iff_mult_less_eq)
    then show ?thesis using rhe_le[of n d] by linarith
  qed
qed

lemma nearest_float_mono:
  assumes "b > 0" "a \<le> a'"
  shows "nearest_float a b \<le> nearest_float a' b"
proof -
  define n where "n = a * 2 ^ 1074"
  define n' where "n' = a' * 2 ^ 1074"
  define t where "t = float_exponent n b"
  define t' where "t' = float_exponent n' b"
  have nn: "n \<le> n'" using assms(2) by (simp add: n_def n'_def)
  have tt: "t \<le> t'" unfolding t_def t'_def by (rule float_exponent_mono[OF assms(1) nn])
  have nf: "nearest_float a b = round_half_even n (b * 2 ^ t) * 2 ^ t"
    by (simp add: nearest_float_def Let_def n_def t_def)
  have nf': "nearest_float a' b = round_half_even n' (b * 2 ^ t') * 2 ^ t'"
    by (simp add: nearest_float_def Let_def n'_def t'_def)
  have dpos: "b * 2 ^ t > 0" "b * 2 ^ t' > 0" using assms(1) by simp_all
  show ?thesis
  proof (cases "t = t'")
    case True
    have "round_half_even n (b * 2 ^ t) \<le> round_half_even n' (b * 2 ^ t)"
      by (rule rhe_mono[OF dpos(1) nn])
    then show ?thesis unfolding nf nf' True by simp
  next
    case False
    with tt have lt: "t + 1 \<le> t'" by simp
    then have t'pos: "t' > 0" by simp
    have "n \<le> 2 ^ 53 * (b * 2 ^ t)"
      using float_exponent_upper[OF assms(1), of n] by (simp add: t_def)
    then have m: "round_half_even n (b * 2 ^ t) \<le> 2 ^ 53"
      by (rule rhe_le_bound[OF dpos(1)])
    have "2 ^ 52 * (b * 2 ^ t') \<le> n'"
      using float_exponent_lower[OF assms(1), of n'] t'pos by (simp add: t'_def)
    then have m': "2 ^ 52 \<le> round_half_even n' (b * 2 ^ t')"
      by (rule rhe_ge_bound[OF dpos(2)])
    have "round_half_even n (b * 2 ^ t) * 2 ^ t \<le> 2 ^ 53 * 2 ^ t"
      using m by (rule mult_le_mono1)
    also have "\<dots> = 2 ^ 52 * 2 ^ (t + 1)" by simp
    also have "\<dots> \<le> 2 ^ 52 * 2 ^ t'"
      by (intro mult_le_mono le_refl power_increasing lt) simp
    also have "\<dots> \<le> round_half_even n' (b * 2 ^ t') * 2 ^ t'"
      using m' by (rule mult_le_mono1)
    finally show ?thesis unfolding nf nf' .
  qed
qed

lemma epoch_of_mono:
  assumes "epoch_of a b = Inr e" "epoch_of a' b = Inr e'" "a \<le> a'"
  shows "e \<le> e'"
proof -
  from assms(1) have b: "b > 0"
    by (auto simp: epoch_of_def true_div_def bind_result_def split: if_splits)
  from assms(1) have e: "e = int (nearest_float a b div 2 ^ 1074)"
    by (auto simp: epoch_of_def true_div_def bind_result_def int_of_float_def split: if_splits)
  from assms(2) have e': "e' = int (nearest_float a' b div 2 ^ 1074)"
    by (auto simp: epoch_of_def true_div_def bind_result_def int_of_float_def split: if_splits)
  from nearest_float_mono[OF b assms(3)]
  have "nearest_float a b div 2 ^ 1074 \<le> nearest_float a' b div 2 ^ 1074"
    by (rule div_le_mono)
  then show ?thesis unfolding e e' by simp
qed


lemma nearest_float_exact:
  assumes "b > 0" "a < 2 ^ 53"
  shows "nearest_float a b div 2 ^ 1074 = a div b \<and> nearest_float a b < 2 ^ 2098"
proof -
  define n where "n = a * 2 ^ 1074"
  define t where "t = float_exponent n b"
  define m where "m = round_half_even n (b * 2 ^ t)"
  have nf: "nearest_float a b = m * 2 ^ t"
    by (simp add: nearest_float_def Let_def n_def t_def m_def)
  have up: "n < 2 ^ 53 * (b * 2 ^ t)"
    unfolding t_def by (rule float_exponent_upper[OF assms(1)])
  have nlt: "n < 2 ^ 53 * 2 ^ 1074" using assms(2) by (simp add: n_def)
  have t_le: "t \<le> 1074"
  proof (rule ccontr)
    assume "\<not> t \<le> 1074"
    then have t1: "1075 \<le> t" by simp
    then have tpos: "float_exponent n b > 0" by (simp add: t_def)
    have "(2::nat) ^ 1075 \<le> 2 ^ t" using t1 by (rule power_increasing) simp
    then have "2 ^ 52 * (1 * 2 ^ 1075) \<le> 2 ^ 52 * (b * 2 ^ t)"
      using assms(1) by (intro mult_le_mono le_refl) simp_all
    also have "\<dots> \<le> n" using float_exponent_lower[OF assms(1) tpos] by (simp add: t_def)
    finally have "2 ^ 52 * (1 * 2 ^ 1075) \<le> n" .
    moreover have "(2::nat) ^ 52 * (1 * 2 ^ 1075) = 2 ^ 53 * 2 ^ 1074" by simp
    ultimately show False using nlt by simp
  qed
  define s where "s = 1074 - t"
  have p: "(2::nat) ^ 1074 = 2 ^ s * 2 ^ t"
    using t_le by (simp add: s_def flip: power_add)
  have m_eq: "m = round_half_even (a * 2 ^ s) b"
  proof -
    have "round_half_even ((a * 2 ^ s) * 2 ^ t) (b * 2 ^ t) = round_half_even (a * 2 ^ s) b"
      by (rule round_half_even_cancel) simp
    then show ?thesis unfolding m_def n_def p by (simp add: mult.assoc)
  qed
  have mle: "m \<le> 2 ^ 53"
    unfolding m_def using up assms(1) by (intro rhe_le_bound) simp_all
  have lower: "a div b * 2 ^ s \<le> m"
  proof -
    have "a div b * b \<le> a" by simp
    then have "a div b * b * 2 ^ s \<le> a * 2 ^ s" by (rule mult_le_mono1)
    then have "(a div b * 2 ^ s) * b \<le> a * 2 ^ s" by (simp add: mult.assoc mult.commute)
    then show ?thesis unfolding m_eq by (rule rhe_ge_bound[OF assms(1)])
  qed
  have upper: "m < (a div b + 1) * 2 ^ s"
  proof (cases "t = 0")
    case True
    then have "s = 1074" by (simp add: s_def)
    have "(2::nat) ^ 53 < 2 ^ 1074" by simp
    also have "\<dots> \<le> (a div b + 1) * 2 ^ 1074" by simp
    finally show ?thesis using mle \<open>s = 1074\<close> by simp
  next
    case False
    then have tpos: "float_exponent n b > 0" by (simp add: t_def)
    have "2 ^ 52 * (b * 2 ^ t) \<le> n"
      using float_exponent_lower[OF assms(1) tpos] by (simp add: t_def)
    then have "2 ^ 52 * (b * 2 ^ t) \<le> a * (2 ^ s * 2 ^ t)"
      unfolding n_def p .
    then have "(2 ^ 52 * b) * 2 ^ t \<le> (a * 2 ^ s) * 2 ^ t" by (simp add: mult.assoc)
    then have "2 ^ 52 * b \<le> a * 2 ^ s" by simp
    also have "\<dots> < 2 ^ 53 * 2 ^ s" using assms(2) by simp
    finally have blt: "b < 2 * 2 ^ s" by simp
    have "a < (a div b + 1) * b" using assms(1) by (simp add: dividend_less_times_div mult.commute)
    then have "a + 1 \<le> (a div b + 1) * b" by simp
    then have "(a + 1) * (2 * 2 ^ s) \<le> (a div b + 1) * b * (2 * 2 ^ s)" by (rule mult_le_mono1)
    then have "2 * (a * 2 ^ s) + 2 * 2 ^ s \<le> (a div b + 1) * 2 ^ s * (2 * b)"
      by (simp add: algebra_simps)
    then have "2 * (a * 2 ^ s) + b < (a div b + 1) * 2 ^ s * (2 * b)" using blt by linarith
    then have "(2 * (a * 2 ^ s) + b) div (2 * b) < (a div b + 1) * 2 ^ s"
      using assms(1) by (simp add: div_less_iff_less_mult)
    then show ?thesis unfolding m_eq using rhe_le_half[OF assms(1), of "a * 2 ^ s"] by linarith
  qed
  have "m div 2 ^ s = a div b"
    by (rule div_nat_eqI) (use lower upper in \<open>simp_all add: mult.commute\<close>)
  moreover have "(m * 2 ^ t) div 2 ^ 1074 = m div 2 ^ s"
    unfolding p by simp
  moreover have "m * 2 ^ t < 2 ^ 2098"
  proof -
    have "m * 2 ^ t \<le> 2 ^ 53 * 2 ^ 1074"
      by (intro mult_le_mono mle power_increasing t_le) simp
    also have "\<dots> < (2::nat) ^ 2098" by simp
    finally show ?thesis .
  qed
  ultimately show ?thesis unfolding nf by simp
qed

lemma epoch_of_exact:
  assumes "b > 0" "a < 2 ^ 53"
  shows "epoch_of a b = Inr (int (a div b))"
  using nearest_float_exact[OF assms] assms(1)
  by (simp add: epoch_of_def true_div_def bind_result_def int_of_float_def)

subsection \<open>The inner loop\<close>

lemma has_attested_iff: "has_attested s xs = (account_id s \<in> fst ` set xs)"
  by (induction xs) auto

text \<open>
  C6: when the validator's submission for the epoch already lists the node's account among
  its attests, \<open>attest\<close> returns \<open>(False, ATTESTED)\<close> and submits nothing, and the
  pass of the inner loop that made the call sets \<open>last_validated_or_attested_epoch\<close> to
  the epoch and leaves the loop.
\<close>

theorem already_attested_completes:
  assumes "get_rewards_submission c (subnet_id s) epoch = Inr (Some sub)"
    and "account_id s \<in> fst ` set (attests sub)"
    and "get_block_number c = Inr bn"
    and "epoch_of bn (epoch_length s) = Inr epoch"
    and "epoch \<le> initial_epoch"
    and "attest_checks \<le> MAX_ATTEST_CHECKS"
  shows "attest c s epoch = (Inr (False, ATTESTED), s, []) \<and>
         attest_loop s initial_epoch attest_checks (c # cs)
           = (s\<lparr>last_validated_or_attested_epoch := epoch\<rparr>,
              [Attempt epoch False ATTESTED], cs)"
proof -
  have a: "attest c s epoch = (Inr (False, ATTESTED), s, [])"
    using assms(1,2)
    by (simp add: attest_def get_validator_consensus_submission_def has_attested_iff)
  show ?thesis
    using assms(3-6) by (simp add: a)
qed


theorem already_attested_completes_witness:
  "attest (chain_at 100 ''val'' (Some attested_submission) [rec_p1] ok_receipt) agent 10
     = (Inr (False, ATTESTED), agent, []) \<and>
   attest_loop agent 10 0 [chain_at 100 ''val'' (Some attested_submission) [rec_p1] ok_receipt]
     = (agent\<lparr>last_validated_or_attested_epoch := 10\<rparr>, [Attempt 10 False ATTESTED], [])"
proof -
  let ?c = "chain_at 100 ''val'' (Some attested_submission) [rec_p1] ok_receipt"
  have 1: "get_rewards_submission ?c (subnet_id agent) 10 = Inr (Some attested_submission)"
    by (simp add: chain_at_def)
  have 2: "account_id agent \<in> fst ` set (attests attested_submission)"
    by (simp add: agent_def init_def attested_submission_def)
  have 3: "get_block_number ?c = Inr 100"
    by (simp add: chain_at_def)
  have 4: "epoch_of 100 (epoch_length agent) = Inr 10"
    using epoch_of_exact[of 10 100] by (simp add: agent_def init_def)
  have 5: "(10::int) \<le> 10" by simp
  have 6: "0 \<le> MAX_ATTEST_CHECKS" by simp
  show ?thesis
    by (rule already_attested_completes[OF 1 2 3 4 5 6])
qed

lemma waiting_pass:
  assumes "no_rollover s ie c" "submission_absent s ie c" "ac \<le> MAX_ATTEST_CHECKS"
  shows "attest_loop s ie ac (c # cs) =
    (case attest_loop s ie (ac + 1) cs of
       (s'', ev', cs') \<Rightarrow> (s'', Attempt ie False WAITING # ev', cs'))"
proof -
  from assms(1) obtain bn where bn: "get_block_number c = Inr bn"
      "epoch_of bn (epoch_length s) = Inr ie"
    by (auto simp: no_rollover_def split: sum.splits)
  have a: "attest c s ie = (Inr (False, WAITING), s, [])"
    using assms(2)
    by (simp add: attest_def get_validator_consensus_submission_def submission_absent_def)
  show ?thesis
    using assms(3) by (simp add: bn a)
qed

lemma exceeded_pass:
  assumes "no_rollover s ie c" "ac > MAX_ATTEST_CHECKS"
  shows "attest_loop s ie ac (c # cs) = (s, [], cs)"
proof -
  from assms(1) obtain bn where bn: "get_block_number c = Inr bn"
      "epoch_of bn (epoch_length s) = Inr ie"
    by (auto simp: no_rollover_def split: sum.splits)
  show ?thesis using assms(2) by (simp add: bn)
qed

text \<open>
  C7: when the epoch does not roll over and every call of \<open>attest\<close> finds no submission,
  the inner loop makes exactly four attempts, each returning \<open>(False, WAITING)\<close>, and
  leaves at the fifth pass by \<open>attest_checks > MAX_ATTEST_CHECKS\<close> with the agent's fields
  unchanged, \<open>last_validated_or_attested_epoch\<close> among them.  After four passes it has
  not left yet.
\<close>

theorem attest_loop_gives_up_after_four:
  assumes "list_all (no_rollover s ie) [c1, c2, c3, c4, c5]"
    and "list_all (submission_absent s ie) [c1, c2, c3, c4]"
  shows "attest_loop s ie 0 (c1 # c2 # c3 # c4 # c5 # cs)
           = (s, replicate 4 (Attempt ie False WAITING), cs) \<and>
         attest_loop s ie 0 [c1, c2, c3, c4]
           = (s, replicate 4 (Attempt ie False WAITING), [])"
proof -
  have n: "no_rollover s ie c1" "no_rollover s ie c2" "no_rollover s ie c3"
      "no_rollover s ie c4" "no_rollover s ie c5"
    using assms(1) by simp_all
  have a: "submission_absent s ie c1" "submission_absent s ie c2"
      "submission_absent s ie c3" "submission_absent s ie c4"
    using assms(2) by simp_all
  have m: "(0::nat) \<le> MAX_ATTEST_CHECKS" "0 + 1 \<le> MAX_ATTEST_CHECKS"
      "0 + 1 + 1 \<le> MAX_ATTEST_CHECKS" "0 + 1 + 1 + 1 \<le> MAX_ATTEST_CHECKS"
      "0 + 1 + 1 + 1 + 1 > MAX_ATTEST_CHECKS"
    by (simp_all add: MAX_ATTEST_CHECKS_def)
  have r: "replicate 4 x = [x, x, x, x]" for x :: event
    by (simp add: numeral_eq_Suc)
  have "attest_loop s ie 0 (c1 # c2 # c3 # c4 # c5 # cs)
           = (s, replicate 4 (Attempt ie False WAITING), cs)"
    unfolding r
    by (simp only: waiting_pass[OF n(1) a(1) m(1)] waiting_pass[OF n(2) a(2) m(2)]
          waiting_pass[OF n(3) a(3) m(3)] waiting_pass[OF n(4) a(4) m(4)]
          exceeded_pass[OF n(5) m(5)] prod.case)
  moreover have "attest_loop s ie 0 [c1, c2, c3, c4]
           = (s, replicate 4 (Attempt ie False WAITING), [])"
    unfolding r
    by (simp only: waiting_pass[OF n(1) a(1) m(1)] waiting_pass[OF n(2) a(2) m(2)]
          waiting_pass[OF n(3) a(3) m(3)] waiting_pass[OF n(4) a(4) m(4)]
          attest_loop.simps(1) prod.case)
  ultimately show ?thesis by simp
qed


theorem attest_loop_gives_up_after_four_witness:
  "attest_loop agent 10 0 (replicate 5 (chain_at 100 ''val'' None [rec_p1] ok_receipt))
     = (agent, replicate 4 (Attempt 10 False WAITING), [])"
proof -
  let ?c = "chain_at 100 ''val'' None [rec_p1] ok_receipt"
  have e: "epoch_of 100 (epoch_length agent) = Inr 10"
    using epoch_of_exact[of 10 100] by (simp add: agent_def init_def)
  have n: "no_rollover agent 10 ?c"
    unfolding no_rollover_def using e by (simp add: chain_at_def)
  have a: "submission_absent agent 10 ?c"
    by (simp add: submission_absent_def chain_at_def)
  have r: "replicate 5 ?c = [?c, ?c, ?c, ?c, ?c]"
    by (simp add: numeral_eq_Suc)
  from n a attest_loop_gives_up_after_four[of agent 10 ?c ?c ?c ?c ?c "[]"]
  show ?thesis unfolding r by simp
qed

subsection \<open>The activation stagger\<close>

lemma find_node_index_of:
  "find_node acc nodes k = (sub, n) \<Longrightarrow>
     (case index_of acc nodes of None \<Rightarrow> \<not> sub | Some i \<Rightarrow> sub \<and> n = k + int i)"
proof (induction nodes arbitrary: k)
  case Nil
  then show ?case by simp
next
  case (Cons x xs)
  show ?case
  proof (cases "x = acc")
    case True
    with Cons.prems show ?thesis by auto
  next
    case False
    with Cons.prems have "find_node acc xs (k + 1) = (sub, n)" by simp
    from Cons.IH[OF this] False show ?thesis
      by (auto split: option.splits)
  qed
qed

lemma sleep_then_staggered:
  assumes "\<And>s c cs. account_id s = acc \<Longrightarrow> staggered_state bs acc (snd (again s c cs))"
    and "staggered_state bs acc st"
  shows "staggered_state bs acc (snd (sleep_then again st))"
proof -
  obtain s ev c cs where st: "st = (s, ev, c, cs)" by (cases st) auto
  show ?thesis
  proof (cases cs)
    case Nil
    then show ?thesis using assms(2) by (simp add: sleep_then_def st)
  next
    case (Cons c' cs')
    obtain out s' ev' c'' cs'' where a: "again s c' cs' = (out, s', ev', c'', cs'')"
      by (cases "again s c' cs'") auto
    from assms(2) have acc: "account_id s = acc" and evs: "list_all (staggered bs acc) ev"
      by (simp_all add: staggered_state_def st)
    from assms(1)[OF acc, of c' cs'] a
    have "list_all (staggered bs acc) ev'" "account_id s' = acc"
      by (simp_all add: staggered_state_def)
    then show ?thesis using evs by (simp add: sleep_then_def st Cons a staggered_state_def)
  qed
qed

lemma and_then_staggered:
  assumes "staggered_state bs acc (snd r)"
    and "\<And>st. staggered_state bs acc st \<Longrightarrow> staggered_state bs acc (snd (k st))"
  shows "staggered_state bs acc (snd (and_then r k))"
proof -
  obtain out st where r: "r = (out, st)" by (cases r) auto
  show ?thesis using assms by (cases out) (simp_all add: and_then_def r)
qed

lemma retry_staggered:
  assumes "\<And>s c cs. account_id s = acc \<Longrightarrow> staggered_state bs acc (snd (again s c cs))"
    and "staggered_state bs acc st"
  shows "staggered_state bs acc (snd (if b then sleep_then again st else (Returned False, st)))"
  using sleep_then_staggered[of acc bs again st] assms by simp

lemma activate_window_staggered:
  assumes "staggered_state bs acc st"
    and "staggered bs acc (Activate sid bn nodes sd)"
  shows "staggered_state bs acc (snd (activate_window sid bn nodes sd st))"
proof -
  obtain s ev c cs where st: "st = (s, ev, c, cs)" by (cases st) auto
  show ?thesis
    using assms
    by (auto simp: activate_window_def Let_def st staggered_state_def activated_fields_def
          split: sum.splits option.splits)
qed


lemma activate_in_turn_staggered:
  assumes again: "\<And>s c cs. account_id s = acc \<Longrightarrow> staggered_state bs acc (snd (again s c cs))"
    and st: "staggered_state bs acc st"
  shows "staggered_state bs acc (snd (activate_in_turn again bs sid sd nodes st))"
proof -
  obtain submittable n where f: "find_node (account_id (fst st)) nodes 0 = (submittable, n)"
    by (cases "find_node (account_id (fst st)) nodes 0") auto
  from st have acc: "account_id (fst st) = acc" by (simp add: staggered_state_def)
  from find_node_index_of[OF f] acc
  have idx: "\<And>i. index_of acc nodes = Some i \<Longrightarrow> n = int i" by auto
  have guard: "staggered bs acc (Activate sid bn nodes sd)"
    if "initialized sd + registration_blocks sd + bs * 10 * (n - 1) \<le> bn" for bn
    using that idx by (auto simp: staggered_def split: option.splits)
  show ?thesis
    unfolding activate_in_turn_def Let_def f prod.case
  proof (rule and_then_staggered, rule retry_staggered[OF again st])
    fix st1 :: act_state
    assume s1: "staggered_state bs acc st1"
    show "staggered_state bs acc (snd
          (case get_block_number (fst (snd (snd st1))) of
             Inl e \<Rightarrow> (Raised e, st1)
           | Inr bn \<Rightarrow>
               and_then
                 (if int bn < initialized sd + registration_blocks sd + bs * 10 * (n - 1)
                  then sleep_then again st1 else (Returned False, st1))
                 (\<lambda>st2.
                    and_then
                      (if initialized sd + registration_blocks sd + bs * 10 * n \<le> int bn
                       then sleep_then again st2 else (Returned False, st2))
                      (\<lambda>st3.
                         if initialized sd + registration_blocks sd + bs * 10 * (n - 1) \<le> int bn
                            \<and> int bn < initialized sd + registration_blocks sd + bs * 10 * n
                         then activate_window sid (int bn) nodes sd st3
                         else (Returned False, st3)))))"
    proof (cases "get_block_number (fst (snd (snd st1)))")
      case (Inl e)
      then show ?thesis using s1 by simp
    next
      case (Inr bn)
      show ?thesis
        unfolding Inr sum.case
        apply (rule and_then_staggered)
         apply (rule retry_staggered[OF again s1])
         apply assumption
        apply (rule and_then_staggered)
         apply (rule retry_staggered[OF again])
          apply assumption
         apply assumption
        apply (simp add: activate_window_staggered guard)
        done
    qed
  qed
qed

lemma activate_subnet_body_staggered:
  assumes again: "\<And>s c cs. account_id s = acc \<Longrightarrow> staggered_state bs acc (snd (again s c cs))"
    and acc: "account_id s = acc"
  shows "staggered_state bs acc (snd (activate_subnet_body again bs s c cs))"
proof -
  have st: "staggered_state bs acc (s, [], c, cs)"
    using acc by (simp add: staggered_state_def)
  show ?thesis
    unfolding activate_subnet_body_def
    using activate_in_turn_staggered[OF again st] acc
    by (simp add: staggered_state_def activated_fields_def split: sum.split option.split)
qed

lemma activate_subnet_fuel_staggered:
  "account_id s = acc \<Longrightarrow> staggered_state bs acc (snd (activate_subnet_fuel k bs s c cs))"
proof (induction k arbitrary: s c cs)
  case 0
  then show ?case by (simp add: staggered_state_def)
next
  case (Suc k)
  show ?case
    unfolding activate_subnet_fuel.simps
    by (rule activate_subnet_body_staggered[OF Suc.IH Suc.prems])
qed

text \<open>
  C8: a node listed at 1-based index \<open>n\<close> among the submittable nodes never submits
  \<open>activate_subnet\<close> at a fetched block number below
  \<open>initialized + registration_blocks + 10 * BLOCK_SECS * (n - 1)\<close>.  Every
  \<open>activate_subnet\<close> extrinsic of every invocation, the recursive ones included and at
  every depth of the recursion, passes the window check on what that invocation fetched.
\<close>

theorem activation_staggered:
  "list_all (staggered BLOCK_SECS (account_id s))
     (events_of (activate_subnet_fuel k BLOCK_SECS s c cs)) \<and>
   list_all (staggered BLOCK_SECS (account_id s))
     (events_of (activate_subnet BLOCK_SECS s c cs))"
  using activate_subnet_fuel_staggered[of s "account_id s" BLOCK_SECS k c cs]
    activate_subnet_fuel_staggered[of s "account_id s" BLOCK_SECS "Suc (length cs)" c cs]
  by (simp add: staggered_state_def events_of_def activate_subnet_def del: activate_subnet_fuel.simps)


lemma activate_subnet_in_window:
  "activate_subnet 6 (init ''path'' ''me'' 10) (registering_at 100) [] =
     (Returned True, activated_fields (init ''path'' ''me'' 10) 1 ActivatedTrue,
      [Activate 1 100 [''val'', ''me'']
         \<lparr> initialized = 0, registration_blocks = 10, activated = 0 \<rparr>],
      registering_at 100, [])"
  by (simp add: activate_subnet_def activate_subnet_body_def activate_in_turn_def and_then_def
      sleep_then_def activate_window_def registering_at_def chain_at_def init_def Let_def)

theorem activation_staggered_witness:
  "events_of (activate_subnet 6 (init ''path'' ''me'' 10) (registering_at 100) []) =
     [Activate 1 100 [''val'', ''me'']
        \<lparr> initialized = 0, registration_blocks = 10, activated = 0 \<rparr>] \<and>
   index_of ''me'' [''val'', ''me''] = Some 2 \<and>
   0 + 10 + 10 * 6 * (int 2 - 1) \<le> (100::int)"
proof -
  have ev: "events_of (activate_subnet 6 (init ''path'' ''me'' 10) (registering_at 100) []) =
     [Activate 1 100 [''val'', ''me'']
        \<lparr> initialized = 0, registration_blocks = 10, activated = 0 \<rparr>]"
    by (simp add: activate_subnet_in_window events_of_def)
  have acc: "account_id (init ''path'' ''me'' 10) = ''me''"
    by (simp add: init_def)
  have idx: "index_of ''me'' [''val'', ''me''] = Some 2"
    by simp
  from activation_staggered[of 6 "init ''path'' ''me'' 10" 0 "registering_at 100" "[]"]
  have "staggered 6 ''me'' (Activate 1 100 [''val'', ''me'']
          \<lparr> initialized = 0, registration_blocks = 10, activated = 0 \<rparr>)"
    unfolding ev acc by simp
  then have "0 + 10 + 10 * 6 * (int 2 - 1) \<le> (100::int)"
    unfolding staggered_def event.case idx option.case by simp
  with ev idx show ?thesis by simp
qed

subsection \<open>What the activation keeps\<close>

lemma same_agent_refl [simp]: "same_agent s s"
  by (simp add: same_agent_def)

lemma same_agent_trans: "same_agent s s' \<Longrightarrow> same_agent s' s'' \<Longrightarrow> same_agent s s''"
  by (simp add: same_agent_def)

lemma sleep_then_kept:
  assumes "\<And>s c cs. kept s cs (snd (again s c cs))"
    and "kept s0 cs0 st"
  shows "kept s0 cs0 (snd (sleep_then again st))"
proof -
  obtain s ev c cs where st: "st = (s, ev, c, cs)" by (cases st) auto
  show ?thesis
  proof (cases cs)
    case Nil
    then show ?thesis using assms(2) by (simp add: sleep_then_def st)
  next
    case (Cons c' cs')
    obtain out s' ev' c'' cs'' where a: "again s c' cs' = (out, s', ev', c'', cs'')"
      by (cases "again s c' cs'") auto
    from assms(1)[of s cs' c'] a
    have k: "same_agent s s'" "\<exists>pre. cs' = pre @ cs''" "list_all is_activate ev'"
      by (simp_all add: kept_def)
    from assms(2) have k0: "same_agent s0 s" "\<exists>pre. cs0 = pre @ c' # cs'" "list_all is_activate ev"
      by (simp_all add: kept_def st Cons)
    from k(2) k0(2) obtain p1 p2 where "cs' = p1 @ cs''" "cs0 = p2 @ c' # cs'" by auto
    then have "cs0 = (p2 @ c' # p1) @ cs''" by simp
    then have "\<exists>pre. cs0 = pre @ cs''" by blast
    then show ?thesis
      using same_agent_trans[OF k0(1) k(1)] k(3) k0(3)
      by (simp add: sleep_then_def st Cons a kept_def)
  qed
qed

lemma and_then_kept:
  assumes "kept s0 cs0 (snd r)"
    and "\<And>st. kept s0 cs0 st \<Longrightarrow> kept s0 cs0 (snd (k st))"
  shows "kept s0 cs0 (snd (and_then r k))"
proof -
  obtain out st where r: "r = (out, st)" by (cases r) auto
  show ?thesis using assms by (cases out) (simp_all add: and_then_def r)
qed

lemma retry_kept:
  assumes "\<And>s c cs. kept s cs (snd (again s c cs))"
    and "kept s0 cs0 st"
  shows "kept s0 cs0 (snd (if b then sleep_then again st else (Returned False, st)))"
  using sleep_then_kept[of again s0 cs0 st] assms by simp

lemma activate_window_kept:
  assumes "kept s0 cs0 st"
  shows "kept s0 cs0 (snd (activate_window sid bn nodes sd st))"
proof -
  obtain s ev c cs where st: "st = (s, ev, c, cs)" by (cases st) auto
  show ?thesis
    using assms
    by (auto simp: activate_window_def Let_def st kept_def activated_fields_def same_agent_def
          is_activate_def split: sum.splits option.splits)
qed

lemma activate_in_turn_kept:
  assumes again: "\<And>s c cs. kept s cs (snd (again s c cs))"
    and st: "kept s0 cs0 st"
  shows "kept s0 cs0 (snd (activate_in_turn again bs sid sd nodes st))"
proof -
  obtain submittable n where f: "find_node (account_id (fst st)) nodes 0 = (submittable, n)"
    by (cases "find_node (account_id (fst st)) nodes 0") auto
  show ?thesis
    unfolding activate_in_turn_def Let_def f prod.case
  proof (rule and_then_kept, rule retry_kept[OF again st])
    fix st1 :: act_state
    assume s1: "kept s0 cs0 st1"
    show "kept s0 cs0 (snd
          (case get_block_number (fst (snd (snd st1))) of
             Inl e \<Rightarrow> (Raised e, st1)
           | Inr bn \<Rightarrow>
               and_then
                 (if int bn < initialized sd + registration_blocks sd + bs * 10 * (n - 1)
                  then sleep_then again st1 else (Returned False, st1))
                 (\<lambda>st2.
                    and_then
                      (if initialized sd + registration_blocks sd + bs * 10 * n \<le> int bn
                       then sleep_then again st2 else (Returned False, st2))
                      (\<lambda>st3.
                         if initialized sd + registration_blocks sd + bs * 10 * (n - 1) \<le> int bn
                            \<and> int bn < initialized sd + registration_blocks sd + bs * 10 * n
                         then activate_window sid (int bn) nodes sd st3
                         else (Returned False, st3)))))"
    proof (cases "get_block_number (fst (snd (snd st1)))")
      case (Inl e)
      then show ?thesis using s1 by simp
    next
      case (Inr bn)
      show ?thesis
        unfolding Inr sum.case
        apply (rule and_then_kept)
         apply (rule retry_kept[OF again s1])
        apply (rule and_then_kept)
         apply (rule retry_kept[OF again])
         apply assumption
        apply (simp add: activate_window_kept)
        done
    qed
  qed
qed

lemma activate_subnet_body_kept:
  assumes again: "\<And>s c cs. kept s cs (snd (again s c cs))"
  shows "kept s cs (snd (activate_subnet_body again bs s c cs))"
proof -
  have st: "kept s cs (s, [], c, cs)"
    by (simp add: kept_def)
  show ?thesis
    unfolding activate_subnet_body_def
    using activate_in_turn_kept[OF again st]
    by (simp add: kept_def activated_fields_def same_agent_def split: sum.split option.split)
qed

lemma activate_subnet_fuel_kept:
  "kept s cs (snd (activate_subnet_fuel k bs s c cs))"
proof (induction k arbitrary: s c cs)
  case 0
  then show ?case by (simp add: kept_def)
next
  case (Suc k)
  show ?case
    unfolding activate_subnet_fuel.simps
    by (rule activate_subnet_body_kept[OF Suc.IH])
qed

lemma activate_subnet_kept:
  "activate_subnet bs s c cs = (out, s', ev, c', cs') \<Longrightarrow>
     same_agent s s' \<and> (\<exists>pre. cs = pre @ cs') \<and> list_all is_activate ev"
  using activate_subnet_fuel_kept[of s cs "Suc (length cs)" bs c]
  by (simp add: activate_subnet_def kept_def del: activate_subnet_fuel.simps)

end
